theory Spec2Isabelle
  imports Complex_Main
begin

section \<open>Strings\<close>

text \<open>
  A Python \<open>str\<close> is a sequence of Unicode code points, so a string is modelled as a list
  of code points (natural numbers) and its length counts code points. \<open>lit\<close> turns an
  ASCII literal into such a string.
\<close>

type_synonym str = "nat list"

definition lit :: "string \<Rightarrow> str" where
  "lit s = map of_char s"

text \<open>
  \<open>str.isspace\<close>, the class \<open>\s\<close> of \<open>re\<close> on a \<open>str\<close> pattern, \<open>str.split()\<close> and
  \<open>str.strip()\<close> all use the same whitespace test of the interpreter: the code points
  9..13, 28..32, U+0085, U+00A0, U+1680, U+2000..U+200A, U+2028, U+2029, U+202F, U+205F
  and U+3000.
\<close>

definition isspace :: "nat \<Rightarrow> bool" where
  "isspace c \<longleftrightarrow>
     (9 \<le> c \<and> c \<le> 13) \<or> (28 \<le> c \<and> c \<le> 32) \<or> c = 0x85 \<or> c = 0xA0 \<or> c = 0x1680 \<or>
     (0x2000 \<le> c \<and> c \<le> 0x200A) \<or> c = 0x2028 \<or> c = 0x2029 \<or> c = 0x202F \<or>
     c = 0x205F \<or> c = 0x3000"

text \<open>The class \<open>[a-z]\<close>: the 26 lowercase Latin letters.\<close>

definition is_az :: "nat \<Rightarrow> bool" where
  "is_az c \<longleftrightarrow> 0x61 \<le> c \<and> c \<le> 0x7A"

text \<open>
  \<open>str.lower()\<close>. The letters \<open>A\<close>..\<open>Z\<close> go to \<open>a\<close>..\<open>z\<close>. Two code points outside ASCII
  have a lowercase form that contains a Latin letter: U+0130 becomes \<open>i\<close> followed by
  U+0307, and U+212A (the Kelvin sign) becomes \<open>k\<close>. Every other code point is left as it
  is here. Python changes some of them (the other cased letters), but such a code point and
  its lowercase form both lie outside \<open>a\<close>..\<open>z\<close> and outside whitespace, so the
  substitution that follows in \<open>normalize_text\<close> turns either into spaces and the
  normalized text is the same.
\<close>

definition lower_cp :: "nat \<Rightarrow> str" where
  "lower_cp c =
     (if 0x41 \<le> c \<and> c \<le> 0x5A then [c + 32]
      else if c = 0x130 then [0x69, 0x307]
      else if c = 0x212A then [0x6B]
      else [c])"

definition lower :: "str \<Rightarrow> str" where
  "lower s = concat (map lower_cp s)"

text \<open>\<open>re.sub(r"[^a-z\s]", " ", text)\<close>: every code point that is neither in \<open>a\<close>..\<open>z\<close> nor
  whitespace is replaced by one space.\<close>

definition sub_non_alpha :: "str \<Rightarrow> str" where
  "sub_non_alpha s = map (\<lambda>c. if is_az c \<or> isspace c then c else 0x20) s"

text \<open>\<open>re.sub(r"\s+", " ", text)\<close>: every maximal run of whitespace is replaced by one
  space, from left to right.\<close>

function sub_ws_runs :: "str \<Rightarrow> str" where
  "sub_ws_runs [] = []"
| "sub_ws_runs (c # cs) =
     (if isspace c then 0x20 # sub_ws_runs (dropWhile isspace cs) else c # sub_ws_runs cs)"
  by pat_completeness auto
termination
  by (relation "measure length") (auto simp: less_Suc_eq_le length_dropWhile_le)

text \<open>\<open>str.strip()\<close>: leading and trailing whitespace removed.\<close>

definition strip :: "str \<Rightarrow> str" where
  "strip s = rev (dropWhile isspace (rev (dropWhile isspace s)))"

text \<open>
  \<open>str.split()\<close> with no separator: skip whitespace, take the maximal run of
  non-whitespace as the next item, and go on after it, until the string is used up.
\<close>

function split :: "str \<Rightarrow> str list" where
  "split s =
     (case dropWhile isspace s of
        [] \<Rightarrow> []
      | c # cs \<Rightarrow>
          (c # takeWhile (\<lambda>x. \<not> isspace x) cs) # split (dropWhile (\<lambda>x. \<not> isspace x) cs))"
  by pat_completeness auto
termination
proof (relation "measure length")
  show "wf (measure length)" by simp
next
  fix s :: str and c cs
  assume "dropWhile isspace s = c # cs"
  then have "length (c # cs) \<le> length s"
    by (metis length_dropWhile_le)
  moreover have "length (dropWhile (\<lambda>x. \<not> isspace x) cs) \<le> length cs"
    by (rule length_dropWhile_le)
  ultimately show "(dropWhile (\<lambda>x. \<not> isspace x) cs, s) \<in> measure length"
    by simp
qed

declare split.simps [simp del]

text \<open>\<open>" ".join(items)\<close>.\<close>

fun join :: "str list \<Rightarrow> str" where
  "join [] = []"
| "join [w] = w"
| "join (w # ws) = w @ 0x20 # join ws"

section \<open>The text processor\<close>

definition normalize_text :: "str \<Rightarrow> str" where
  "normalize_text text = strip (sub_ws_runs (sub_non_alpha (lower text)))"

definition tokenize :: "str \<Rightarrow> str list" where
  "tokenize text = (if text = [] then [] else split text)"

text \<open>
  A \<open>Counter\<close> is a dictionary from words to integer counts that keeps the order in which
  keys were first inserted: an association list. \<open>Counter(tokens)\<close> counts the tokens one
  by one, from an empty dictionary: a key already present has its count raised in place, a
  new key is added at the end with count 1.
\<close>

type_synonym counter = "(str \<times> int) list"

fun count_elem :: "str \<Rightarrow> counter \<Rightarrow> counter" where
  "count_elem w [] = [(w, 1)]"
| "count_elem w ((k, n) # kvs) =
     (if k = w then (k, n + 1) # kvs else (k, n) # count_elem w kvs)"

definition Counter :: "str list \<Rightarrow> counter" where
  "Counter tokens = foldl (\<lambda>d w. count_elem w d) [] tokens"

definition compute_frequencies :: "str \<Rightarrow> counter" where
  "compute_frequencies text = Counter (tokenize (normalize_text text))"

text \<open>
  \<open>Counter.most_common()\<close> is \<open>sorted(items, key=count, reverse=True)\<close>: a stable sort by
  descending count, so entries with equal counts keep their dictionary order.
\<close>

definition most_common :: "counter \<Rightarrow> counter" where
  "most_common d = sort_key (\<lambda>(w, n). - n) d"

text \<open>
  \<open>Counter.most_common(1)\<close> is \<open>heapq.nlargest(1, items, key=count)\<close>, which is
  \<open>max(items, key=count)\<close> in a list, or the empty list for no items: the first entry
  whose count no later entry exceeds.
\<close>

definition most_common1 :: "counter \<Rightarrow> counter" where
  "most_common1 d =
     (case d of
        [] \<Rightarrow> []
      | x # xs \<Rightarrow> [foldl (\<lambda>best y. if snd best < snd y then y else best) x xs])"

text \<open>
  The exceptions the code can raise: the \<open>HTTPException\<close> of the request handlers, with
  its status code and detail, and the \<open>IndexError\<close> of indexing a list out of range.
\<close>

datatype error = HTTPException nat str | IndexError

text \<open>
  A Python \<open>float\<close> is modelled as a real number: \<open>float(n)\<close> is the count itself and
  \<open>/\<close> is exact division; the rounding of binary floating point is left out. For an
  integer \<open>n\<close> with \<open>|n| \<le> 2^53\<close> that is what \<open>float(n)\<close> is: the conversion is exact.
  Beyond that Python rounds \<open>n\<close> to the nearest double, and from \<open>2^1024\<close> on it raises
  \<open>OverflowError\<close>; the model does neither, so what is stated about the value of the
  constant is stated for counts up to \<open>2^53\<close>. A larger count takes a text of more than
  \<open>2^53\<close> tokens, the counts of a table adding up to the number of tokens of its text.
  \<open>most_common(1)[0]\<close> raises \<open>IndexError\<close> on an empty list.
\<close>

definition compute_zipf_constant :: "counter \<Rightarrow> error + real" where
  "compute_zipf_constant frequencies =
     (if frequencies = [] then Inr 0
      else case most_common1 frequencies of
             [] \<Rightarrow> Inl IndexError
           | first # _ \<Rightarrow> Inr (real_of_int (snd first)))"

section \<open>The cache and the request handlers\<close>

record CachedText =
  title :: str
  content :: str
  frequencies :: counter

text \<open>The cache is a dictionary from text identifiers to cached texts; \<open>cache.get\<close> is
  the lookup, with \<open>None\<close> for a missing key.\<close>

type_synonym cache = "str \<rightharpoonup> CachedText"

record WordFrequency =
  word :: str
  count :: int

record FrequencyResponse =
  text_id :: str
  title :: str
  total_words :: int
  unique_words :: int
  frequencies :: "WordFrequency list"

record ZipfDataPoint =
  rank :: int
  word :: str
  frequency :: int
  expected_frequency :: real

record ZipfResponse =
  text_id :: str
  title :: str
  total_words :: int
  zipf_constant :: real
  data :: "ZipfDataPoint list"

text \<open>The detail of the 404 response: \<open>f"Text '{text_id}' not found"\<close>.\<close>

definition not_found :: "str \<Rightarrow> error" where
  "not_found tid = HTTPException 404 (lit ''Text '' @ [0x27] @ tid @ [0x27] @ lit '' not found'')"

text \<open>\<open>enumerate(items, start=n)\<close>.\<close>

fun enumerate_from :: "int \<Rightarrow> 'a list \<Rightarrow> (int \<times> 'a) list" where
  "enumerate_from n [] = []"
| "enumerate_from n (x # xs) = (n, x) # enumerate_from (n + 1) xs"

text \<open>
  A cached text is an object of a plain dataclass, which is always true in a condition,
  so \<open>if not cached\<close> holds exactly when the lookup gave \<open>None\<close>.
\<close>

definition get_frequency :: "cache \<Rightarrow> str \<Rightarrow> error + FrequencyResponse" where
  "get_frequency cache tid =
     (case cache tid of
        None \<Rightarrow> Inl (not_found tid)
      | Some cached \<Rightarrow>
          Inr \<lparr>FrequencyResponse.text_id = tid,
               title = CachedText.title cached,
               total_words = sum_list (map snd (CachedText.frequencies cached)),
               unique_words = int (length (CachedText.frequencies cached)),
               frequencies =
                 map (\<lambda>(word, count). \<lparr>WordFrequency.word = word, count = count\<rparr>)
                   (most_common (CachedText.frequencies cached))\<rparr>)"

text \<open>One pass of the loop of \<open>get_zipf\<close>: the data point of an enumerated entry.\<close>

definition zipf_point :: "real \<Rightarrow> int \<times> str \<times> int \<Rightarrow> ZipfDataPoint" where
  "zipf_point zc = (\<lambda>(rank, word, frequency).
     \<lparr>rank = rank, word = word, frequency = frequency,
      expected_frequency = (if rank > 0 then zc / real_of_int rank else 0)\<rparr>)"

definition get_zipf :: "cache \<Rightarrow> str \<Rightarrow> error + ZipfResponse" where
  "get_zipf cache tid =
     (case cache tid of
        None \<Rightarrow> Inl (not_found tid)
      | Some cached \<Rightarrow>
          (case compute_zipf_constant (CachedText.frequencies cached) of
             Inl e \<Rightarrow> Inl e
           | Inr zc \<Rightarrow>
               Inr \<lparr>ZipfResponse.text_id = tid,
                    title = CachedText.title cached,
                    total_words = sum_list (map snd (CachedText.frequencies cached)),
                    zipf_constant = zc,
                    data = map (zipf_point zc)
                             (enumerate_from 1 (most_common (CachedText.frequencies cached)))\<rparr>))"

section \<open>The sample document of the tests\<close>

text \<open>The fixture \<open>sample_text\<close> of the endpoint tests: one document, cached under the
  identifier \<open>sample\<close>, with the frequencies \<open>compute_frequencies\<close> gives for its content.\<close>

definition sample_content :: str where
  "sample_content = lit ''The quick brown fox jumps over the lazy dog. The fox is quick.''"

definition sample_text :: CachedText where
  "sample_text =
     \<lparr>CachedText.title = lit ''Sample Text'', content = sample_content,
      frequencies = compute_frequencies sample_content\<rparr>"

definition sample_cache :: cache where
  "sample_cache = [lit ''sample'' \<mapsto> sample_text]"

section \<open>Evaluating the definitions\<close>

text \<open>The defining equations that the simplifier unfolds to run the text processor on a
  concrete string.\<close>

lemmas text_defs =
  lit_def isspace_def is_az_def lower_def lower_cp_def sub_non_alpha_def strip_def
  normalize_text_def tokenize_def split.simps compute_frequencies_def Counter_def

section \<open>Splitting into words\<close>

lemma is_az_not_space: "is_az c \<Longrightarrow> \<not> isspace c"
  by (auto simp: is_az_def isspace_def)

lemma isspace_32: "isspace 32"
  by (simp add: isspace_def)

lemma split_Nil: "split [] = []"
  by (simp add: split.simps)

lemma split_space: "isspace c \<Longrightarrow> split (c # s) = split s"
  by (simp add: split.simps [of "c # s"] split.simps [of s])

lemma split_word:
  "\<not> isspace c \<Longrightarrow>
   split (c # s) = (c # takeWhile (\<lambda>x. \<not> isspace x) s) # split (dropWhile (\<lambda>x. \<not> isspace x) s)"
  by (simp add: split.simps [of "c # s"])

lemma split_all_space: "\<forall>c \<in> set s. isspace c \<Longrightarrow> split s = []"
  by (induction s) (simp_all add: split_Nil split_space)

lemma split_tokens:
  "w \<in> set (split s) \<Longrightarrow> w \<noteq> [] \<and> (\<forall>c \<in> set w. \<not> isspace c) \<and> set w \<subseteq> set s"
proof (induction s arbitrary: w rule: length_induct)
  case (1 s)
  show ?case
  proof (cases s)
    case Nil
    with "1.prems" show ?thesis by (simp add: split_Nil)
  next
    case (Cons c cs)
    show ?thesis
    proof (cases "isspace c")
      case True
      with Cons "1.prems" have "w \<in> set (split cs)" by (simp add: split_space)
      moreover from Cons have "length cs < length s" by simp
      ultimately have "w \<noteq> [] \<and> (\<forall>c \<in> set w. \<not> isspace c) \<and> set w \<subseteq> set cs"
        using "1.IH" by blast
      with Cons show ?thesis by auto
    next
      case False
      let ?rest = "dropWhile (\<lambda>x. \<not> isspace x) cs"
      from False Cons "1.prems"
      consider "w = c # takeWhile (\<lambda>x. \<not> isspace x) cs" | "w \<in> set (split ?rest)"
        by (auto simp: split_word)
      then show ?thesis
      proof cases
        case 1
        with False Cons show ?thesis by (auto dest: set_takeWhileD)
      next
        case 2
        have "length ?rest < length s"
          using Cons length_dropWhile_le [of "\<lambda>x. \<not> isspace x" cs] by simp
        with 2 have "w \<noteq> [] \<and> (\<forall>c \<in> set w. \<not> isspace c) \<and> set w \<subseteq> set ?rest"
          using "1.IH" by blast
        with Cons show ?thesis by (auto dest: set_dropWhileD)
      qed
    qed
  qed
qed

lemma take_drop_word_space:
  assumes "isspace x"
  shows "takeWhile (\<lambda>x. \<not> isspace x) (cs @ x # b) = takeWhile (\<lambda>x. \<not> isspace x) cs"
    and "dropWhile (\<lambda>x. \<not> isspace x) (cs @ x # b) = dropWhile (\<lambda>x. \<not> isspace x) cs @ x # b"
  using assms by (induction cs) simp_all

lemma split_append_space:
  "isspace x \<Longrightarrow> split (a @ x # b) = split a @ split b"
proof (induction a rule: length_induct)
  case (1 a)
  show ?case
  proof (cases a)
    case Nil
    with "1.prems" show ?thesis by (simp add: split_Nil split_space)
  next
    case (Cons c cs)
    show ?thesis
    proof (cases "isspace c")
      case True
      from Cons have "length cs < length a" by simp
      with "1.IH" "1.prems" have "split (cs @ x # b) = split cs @ split b" by blast
      with True Cons show ?thesis by (simp add: split_space)
    next
      case False
      let ?rest = "dropWhile (\<lambda>x. \<not> isspace x) cs"
      have "length ?rest < length a"
        using Cons length_dropWhile_le [of "\<lambda>x. \<not> isspace x" cs] by simp
      with "1.IH" "1.prems" have "split (?rest @ x # b) = split ?rest @ split b" by blast
      with False Cons "1.prems" show ?thesis
        by (simp add: split_word take_drop_word_space)
    qed
  qed
qed

section \<open>Normalization and tokens\<close>

lemma split_dropWhile_space: "split (dropWhile isspace s) = split s"
  by (induction s) (simp_all add: split_space)

lemma split_append_all_space:
  "\<forall>c \<in> set w. isspace c \<Longrightarrow> split (v @ w) = split v"
proof (cases w)
  case Nil
  then show ?thesis by simp
next
  case (Cons x w')
  assume "\<forall>c \<in> set w. isspace c"
  with Cons have "isspace x" and "\<forall>c \<in> set w'. isspace c" by simp_all
  then have "split (v @ x # w') = split v @ []"
    by (simp only: split_append_space split_all_space)
  with Cons show ?thesis by simp
qed

lemma split_strip: "split (strip s) = split s"
proof -
  let ?u = "dropWhile isspace s"
  have "rev (dropWhile isspace (rev ?u)) @ rev (takeWhile isspace (rev ?u)) = ?u"
    by (metis rev_append rev_rev_ident takeWhile_dropWhile_id)
  moreover have "\<forall>c \<in> set (rev (takeWhile isspace (rev ?u))). isspace c"
    by (auto dest: set_takeWhileD)
  ultimately have "split (rev (dropWhile isspace (rev ?u))) = split ?u"
    by (metis split_append_all_space)
  then show ?thesis by (simp add: strip_def split_dropWhile_space)
qed

lemma sub_ws_runs_word:
  "takeWhile (\<lambda>x. \<not> isspace x) (sub_ws_runs cs) = takeWhile (\<lambda>x. \<not> isspace x) cs"
  "dropWhile (\<lambda>x. \<not> isspace x) (sub_ws_runs cs) = sub_ws_runs (dropWhile (\<lambda>x. \<not> isspace x) cs)"
  by (induction cs) (simp_all add: isspace_32)

lemma split_sub_ws_runs: "split (sub_ws_runs s) = split s"
proof (induction s rule: length_induct)
  case (1 s)
  show ?case
  proof (cases s)
    case Nil
    then show ?thesis by simp
  next
    case (Cons c cs)
    show ?thesis
    proof (cases "isspace c")
      case True
      have "length (dropWhile isspace cs) < length s"
        using Cons length_dropWhile_le [of isspace cs] by simp
      with "1.IH" have "split (sub_ws_runs (dropWhile isspace cs)) = split (dropWhile isspace cs)"
        by blast
      with True Cons show ?thesis
        by (simp add: split_space isspace_32 split_dropWhile_space)
    next
      case False
      let ?rest = "dropWhile (\<lambda>x. \<not> isspace x) cs"
      have "length ?rest < length s"
        using Cons length_dropWhile_le [of "\<lambda>x. \<not> isspace x" cs] by simp
      with "1.IH" have "split (sub_ws_runs ?rest) = split ?rest" by blast
      with False Cons show ?thesis
        by (simp add: split_word sub_ws_runs_word)
    qed
  qed
qed

lemma tokenize_split: "tokenize s = split s"
  by (simp add: tokenize_def split_Nil)

lemma tokens_eq:
  "tokenize (normalize_text text) = split (sub_non_alpha (lower text))"
  by (simp add: tokenize_split normalize_text_def split_strip split_sub_ws_runs)

lemma set_sub_non_alpha: "c \<in> set (sub_non_alpha s) \<Longrightarrow> is_az c \<or> isspace c"
  by (auto simp: sub_non_alpha_def isspace_32)

lemma tokens_letters:
  assumes "w \<in> set (tokenize (normalize_text text))"
  shows "w \<noteq> [] \<and> (\<forall>c \<in> set w. is_az c)"
proof -
  from assms have w: "w \<in> set (split (sub_non_alpha (lower text)))"
    by (simp only: tokens_eq)
  then have "w \<noteq> []" and ns: "\<forall>c \<in> set w. \<not> isspace c"
    and sub: "set w \<subseteq> set (sub_non_alpha (lower text))"
    using split_tokens by blast+
  from sub ns have "\<forall>c \<in> set w. is_az c"
    using set_sub_non_alpha by blast
  with \<open>w \<noteq> []\<close> show ?thesis by simp
qed

lemma split_word_then_space:
  assumes "w \<noteq> []" "\<forall>c \<in> set w. \<not> isspace c"
  shows "split w = [w]" and "isspace x \<Longrightarrow> split (w @ x # r) = w # split r"
proof -
  from assms obtain c cs where w: "w = c # cs" by (cases w) auto
  with assms have c: "\<not> isspace c" and cs: "\<forall>c \<in> set cs. \<not> isspace c" by simp_all
  from cs have word: "takeWhile (\<lambda>x. \<not> isspace x) cs = cs"
    and rest: "dropWhile (\<lambda>x. \<not> isspace x) cs = []"
    by simp_all
  show one: "split w = [w]"
    unfolding w by (simp only: split_word [OF c] word rest split_Nil)
  show "split (w @ x # r) = w # split r" if "isspace x"
    using that one by (simp add: split_append_space)
qed

lemma split_join:
  "\<forall>w \<in> set ws. w \<noteq> [] \<and> (\<forall>c \<in> set w. \<not> isspace c) \<Longrightarrow> split (join ws) = ws"
proof (induction ws rule: join.induct)
  case 1
  show ?case by (simp add: split_Nil)
next
  case (2 w)
  then show ?case by (simp add: split_word_then_space)
next
  case (3 w v ws)
  then have "split (join (v # ws)) = v # ws" by simp
  moreover from "3.prems" have "split (w @ 32 # join (v # ws)) = w # split (join (v # ws))"
    by (intro split_word_then_space) (simp_all add: isspace_32)
  ultimately show ?case by simp
qed

lemma set_sub_ws_runs: "c \<in> set (sub_ws_runs s) \<Longrightarrow> c = 32 \<or> c \<in> set s"
  by (induction s arbitrary: c rule: sub_ws_runs.induct)
     (auto split: if_splits dest: set_dropWhileD)

lemma strip_all_space: "\<forall>c \<in> set s. isspace c \<Longrightarrow> strip s = []"
  by (auto simp: strip_def dest: set_dropWhileD)

lemma lower_append: "lower (u @ v) = lower u @ lower v"
  by (simp add: lower_def)



lemma no_letters_all_space:
  assumes "\<forall>c \<in> set text. \<forall>x \<in> set (lower_cp c). \<not> is_az x"
  shows "\<forall>x \<in> set (sub_non_alpha (lower text)). isspace x"
  using assms by (auto simp: sub_non_alpha_def lower_def isspace_32)



lemma lower_letters_id: "\<forall>c \<in> set s. is_az c \<or> c = 32 \<Longrightarrow> lower s = s"
  by (induction s) (auto simp: lower_def lower_cp_def is_az_def)

lemma sub_non_alpha_id: "\<forall>c \<in> set s. is_az c \<or> c = 32 \<Longrightarrow> sub_non_alpha s = s"
  by (induction s) (auto simp: sub_non_alpha_def)

lemma set_join: "c \<in> set (join ws) \<Longrightarrow> c = 32 \<or> (\<exists>w \<in> set ws. c \<in> set w)"
  by (induction ws arbitrary: c rule: join.induct) auto

text \<open>
  Claim C2. The tokenizer of the specification is the pipeline of \<open>compute_frequencies\<close>:
  \<open>tokenize(normalize_text(text))\<close>. For every input string, none of its tokens is empty
  and every token consists of the letters \<open>a\<close>..\<open>z\<close> only, so it holds no whitespace and
  no other character. \<open>tokenize\<close> alone, on any string at all, never yields an empty token
  nor a token with whitespace in it. An empty normalized string gives the empty sequence,
  and a text without any Latin letter (only digits, punctuation, whitespace or other
  symbols, in any mix) normalizes to the empty string and gives the empty sequence.
\<close>

theorem tokens_nonempty_letters_only:
  "(\<forall>w \<in> set (tokenize (normalize_text text)).
      w \<noteq> [] \<and> (\<forall>c \<in> set w. is_az c \<and> \<not> isspace c))
   \<and> (\<forall>w \<in> set (tokenize text). w \<noteq> [] \<and> (\<forall>c \<in> set w. \<not> isspace c))
   \<and> (normalize_text text = [] \<longrightarrow> tokenize (normalize_text text) = [])
   \<and> ((\<forall>c \<in> set text. \<forall>x \<in> set (lower_cp c). \<not> is_az x) \<longrightarrow>
        normalize_text text = [] \<and> tokenize (normalize_text text) = [])"
proof (intro conjI impI ballI)
  fix w assume "w \<in> set (tokenize (normalize_text text))"
  then have "w \<noteq> [] \<and> (\<forall>c \<in> set w. is_az c)" by (rule tokens_letters)
  then show "w \<noteq> []" and "\<And>c. c \<in> set w \<Longrightarrow> is_az c" and "\<And>c. c \<in> set w \<Longrightarrow> \<not> isspace c"
    by (auto dest: is_az_not_space)
next
  fix w assume "w \<in> set (tokenize text)"
  then have "w \<in> set (split text)" by (simp only: tokenize_split)
  then have "w \<noteq> [] \<and> (\<forall>c \<in> set w. \<not> isspace c) \<and> set w \<subseteq> set text"
    by (rule split_tokens)
  then show "w \<noteq> []" and "\<And>c. c \<in> set w \<Longrightarrow> \<not> isspace c" by auto
next
  assume "normalize_text text = []"
  then show "tokenize (normalize_text text) = []" by (simp add: tokenize_def)
next
  assume none: "\<forall>c \<in> set text. \<forall>x \<in> set (lower_cp c). \<not> is_az x"
  then have sp: "\<forall>x \<in> set (sub_non_alpha (lower text)). isspace x"
    by (rule no_letters_all_space)
  then have "\<forall>x \<in> set (sub_ws_runs (sub_non_alpha (lower text))). isspace x"
    using set_sub_ws_runs isspace_32 by blast
  then show "normalize_text text = []"
    by (simp only: normalize_text_def strip_all_space)
  from sp show "tokenize (normalize_text text) = []"
    by (simp only: tokens_eq split_all_space)
qed


text \<open>
  Claim C8. For every input text, joining the tokens of the normalized text with single
  spaces and tokenizing the result again, with or without another normalization, gives
  the same token sequence.
\<close>

theorem retokenize_joined_tokens:
  "tokenize (normalize_text (join (tokenize (normalize_text text))))
     = tokenize (normalize_text text)
   \<and> tokenize (join (tokenize (normalize_text text))) = tokenize (normalize_text text)"
proof -
  let ?ws = "tokenize (normalize_text text)"
  have letters: "\<forall>w \<in> set ?ws. w \<noteq> [] \<and> (\<forall>c \<in> set w. is_az c)"
    using tokens_letters by blast
  then have words: "\<forall>w \<in> set ?ws. w \<noteq> [] \<and> (\<forall>c \<in> set w. \<not> isspace c)"
    using is_az_not_space by blast
  then have rejoin: "split (join ?ws) = ?ws" by (rule split_join)
  from letters have "\<forall>c \<in> set (join ?ws). is_az c \<or> c = 32"
    using set_join by blast
  then have "sub_non_alpha (lower (join ?ws)) = join ?ws"
    by (simp add: lower_letters_id sub_non_alpha_id)
  then have "tokenize (normalize_text (join ?ws)) = split (join ?ws)"
    by (simp only: tokens_eq)
  with rejoin show ?thesis by (simp only: tokenize_split simp_thms)
qed

theorem tokens_nonempty_letters_only_witness:
  "lit ''a'' \<in> set (tokenize (normalize_text (lit ''a1, b'')))
   \<and> lit ''a'' \<noteq> []
   \<and> lit ''a1,'' \<in> set (tokenize (lit ''a1, b''))
   \<and> lit ''a1,'' \<noteq> []
   \<and> normalize_text (lit ''12 !?'') = []
   \<and> tokenize (normalize_text (lit ''12 !?'')) = []"
proof -
  have piped: "lit ''a'' \<in> set (tokenize (normalize_text (lit ''a1, b'')))"
    by (simp add: text_defs)
  have raw: "lit ''a1,'' \<in> set (tokenize (lit ''a1, b''))"
    by (simp add: text_defs)
  have none: "\<forall>c \<in> set (lit ''12 !?''). \<forall>x \<in> set (lower_cp c). \<not> is_az x"
    by (simp add: lit_def lower_cp_def is_az_def)
  from tokens_nonempty_letters_only [of "lit ''a1, b''"] piped raw
  have "lit ''a'' \<noteq> []" and "lit ''a1,'' \<noteq> []" by blast+
  moreover from tokens_nonempty_letters_only [of "lit ''12 !?''"] none
  have "normalize_text (lit ''12 !?'') = []" and "tokenize (normalize_text (lit ''12 !?'')) = []"
    by blast+
  ultimately show ?thesis using piped raw by (intro conjI)
qed


theorem retokenize_joined_tokens_witness:
  "join (tokenize (normalize_text (lit ''Hello,  World!''))) = lit ''hello world''
   \<and> tokenize (normalize_text (join (tokenize (normalize_text (lit ''Hello,  World!'')))))
       = [lit ''hello'', lit ''world'']"
proof -
  have tokens: "tokenize (normalize_text (lit ''Hello,  World!'')) = [lit ''hello'', lit ''world'']"
    by (simp add: text_defs)
  then have joined: "join (tokenize (normalize_text (lit ''Hello,  World!''))) = lit ''hello world''"
    by (simp add: lit_def)
  from retokenize_joined_tokens [of "lit ''Hello,  World!''"]
  have "tokenize (normalize_text (join (tokenize (normalize_text (lit ''Hello,  World!'')))))
          = tokenize (normalize_text (lit ''Hello,  World!''))"
    by (rule conjunct1)
  then have "tokenize (normalize_text (join (tokenize (normalize_text (lit ''Hello,  World!'')))))
       = [lit ''hello'', lit ''world'']"
    by (simp only: tokens)
  with joined show ?thesis by (intro conjI)
qed

section \<open>Counting tokens\<close>

lemma sum_count_elem: "sum_list (map snd (count_elem w d)) = sum_list (map snd d) + 1"
  by (induction w d rule: count_elem.induct) auto

lemma pos_count_elem:
  "\<forall>(k, n) \<in> set d. 1 \<le> n \<Longrightarrow> \<forall>(k, n) \<in> set (count_elem w d). 1 \<le> n"
  by (induction w d rule: count_elem.induct) auto

lemma sum_foldl_count:
  "sum_list (map snd (foldl (\<lambda>d w. count_elem w d) d ws))
     = sum_list (map snd d) + int (length ws)"
  by (induction ws arbitrary: d) (simp_all add: sum_count_elem)

lemma pos_foldl_count:
  "\<forall>(k, n) \<in> set d. 1 \<le> n \<Longrightarrow>
   \<forall>(k, n) \<in> set (foldl (\<lambda>d w. count_elem w d) d ws). 1 \<le> n"
proof (induction ws arbitrary: d)
  case Nil
  then show ?case by simp
next
  case (Cons a ws)
  from Cons.prems have "\<forall>(k, n) \<in> set (count_elem a d). 1 \<le> n"
    by (rule pos_count_elem)
  then have "\<forall>(k, n) \<in> set (foldl (\<lambda>d w. count_elem w d) (count_elem a d) ws). 1 \<le> n"
    by (rule Cons.IH)
  then show ?case by simp
qed

text \<open>
  Claim C1. For every input text, the counts of the frequency table that
  \<open>compute_frequencies\<close> builds add up to the number of tokens obtained by normalizing and
  tokenizing the text, and every count in the table is at least 1.
\<close>

theorem frequencies_sum_and_positive:
  "sum_list (map snd (compute_frequencies text)) = int (length (tokenize (normalize_text text)))
   \<and> (\<forall>(w, n) \<in> set (compute_frequencies text). 1 \<le> n)"
proof
  show "sum_list (map snd (compute_frequencies text))
          = int (length (tokenize (normalize_text text)))"
    by (simp add: compute_frequencies_def Counter_def sum_foldl_count)
  have "\<forall>(k, n) \<in> set ([] :: counter). 1 \<le> n" by simp
  then show "\<forall>(w, n) \<in> set (compute_frequencies text). 1 \<le> n"
    unfolding compute_frequencies_def Counter_def by (rule pos_foldl_count)
qed

theorem frequencies_sum_and_positive_witness:
  "sum_list (map snd (compute_frequencies (lit ''The cat, and the dog!''))) = 5
   \<and> length (tokenize (normalize_text (lit ''The cat, and the dog!''))) = 5
   \<and> (lit ''the'', 2) \<in> set (compute_frequencies (lit ''The cat, and the dog!''))"
proof -
  have len: "length (tokenize (normalize_text (lit ''The cat, and the dog!''))) = 5"
    by (simp add: text_defs)
  have mem: "(lit ''the'', 2) \<in> set (compute_frequencies (lit ''The cat, and the dog!''))"
    by (simp add: text_defs)
  from frequencies_sum_and_positive [of "lit ''The cat, and the dog!''"] len mem
  show ?thesis by simp
qed

section \<open>The Zipf constant\<close>

lemma Max_insert_below:
  fixes a :: int
  assumes "finite A" "b \<in> A" "a \<le> b"
  shows "Max (insert a A) = Max A"
proof -
  from assms have "A \<noteq> {}" by auto
  with assms(1) have "Max (insert a A) = max a (Max A)" by (rule Max_insert)
  moreover from assms have "a \<le> Max A" by (meson Max_ge order_trans)
  ultimately show ?thesis by (simp add: max_def)
qed

lemma snd_foldl_best:
  fixes x :: "'a \<times> int"
  shows "snd (foldl (\<lambda>best y. if snd best < snd y then y else best) x xs) = Max (snd ` set (x # xs))"
proof (induction xs arbitrary: x)
  case Nil
  show ?case by simp
next
  case (Cons a xs)
  let ?S = "snd ` set xs"
  show ?case
  proof (cases "snd x < snd a")
    case True
    have "Max (insert (snd x) (insert (snd a) ?S)) = Max (insert (snd a) ?S)"
      using True by (intro Max_insert_below [where b = "snd a"]) auto
    with True Cons.IH [of a] show ?thesis by simp
  next
    case False
    have "Max (insert (snd a) (insert (snd x) ?S)) = Max (insert (snd x) ?S)"
      using False by (intro Max_insert_below [where b = "snd x"]) auto
    with False Cons.IH [of x] show ?thesis by (simp add: insert_commute)
  qed
qed

lemma compute_zipf_constant_eq:
  "compute_zipf_constant d = Inr (if d = [] then 0 else real_of_int (Max (snd ` set d)))"
  by (cases d) (simp_all add: compute_zipf_constant_def most_common1_def snd_foldl_best)

text \<open>
  Claim C3. \<open>compute_zipf_constant\<close> returns 0.0 for the empty table; for any other table
  whose largest count is at most \<open>2^53\<close> in absolute value, the range in which \<open>float\<close>
  converts an integer exactly, it returns, without raising, the largest count of the table
  as a float, for instance 100.0 for the table \<open>{"the": 100, "of": 50, "and": 25}\<close>. The
  result depends on the counts only: two tables with the same set of counts give the same
  constant, whichever words carry them and in whatever order.
\<close>

theorem zipf_constant_is_max_count:
  "compute_zipf_constant [] = Inr 0
   \<and> (d \<noteq> [] \<and> \<bar>Max (snd ` set d)\<bar> \<le> 2 ^ 53 \<longrightarrow>
        compute_zipf_constant d = Inr (real_of_int (Max (snd ` set d))))
   \<and> compute_zipf_constant [(lit ''the'', 100), (lit ''of'', 50), (lit ''and'', 25)] = Inr 100
   \<and> (snd ` set d = snd ` set d' \<longrightarrow> compute_zipf_constant d = compute_zipf_constant d')"
proof (intro conjI impI)
  show "compute_zipf_constant [] = Inr 0"
    by (simp add: compute_zipf_constant_eq)
  show "compute_zipf_constant d = Inr (real_of_int (Max (snd ` set d)))"
    if "d \<noteq> [] \<and> \<bar>Max (snd ` set d)\<bar> \<le> 2 ^ 53"
    using that by (simp add: compute_zipf_constant_eq)
  show "compute_zipf_constant [(lit ''the'', 100), (lit ''of'', 50), (lit ''and'', 25)] = Inr 100"
    by (simp add: compute_zipf_constant_def most_common1_def)
  show "compute_zipf_constant d = compute_zipf_constant d'" if "snd ` set d = snd ` set d'"
  proof -
    from that have "d = [] \<longleftrightarrow> d' = []" by (metis image_is_empty set_empty)
    with that show ?thesis by (simp add: compute_zipf_constant_eq)
  qed
qed

theorem zipf_constant_is_max_count_witness:
  "[(lit ''a'', 2 :: int), (lit ''b'', 7), (lit ''c'', 7)] \<noteq> []
   \<and> \<bar>Max (snd ` set [(lit ''a'', 2 :: int), (lit ''b'', 7), (lit ''c'', 7)])\<bar> \<le> 2 ^ 53
   \<and> compute_zipf_constant [(lit ''a'', 2), (lit ''b'', 7), (lit ''c'', 7)] = Inr 7
   \<and> snd ` set [(lit ''a'', 2), (lit ''b'', 7), (lit ''c'', 7)] = snd ` set [(lit ''c'', 7 :: int), (lit ''x'', 2)]
   \<and> compute_zipf_constant [(lit ''c'', 7), (lit ''x'', 2)] = Inr 7"
proof -
  have ne: "[(lit ''a'', 2 :: int), (lit ''b'', 7), (lit ''c'', 7)] \<noteq> []" by simp
  have top: "Max (snd ` set [(lit ''a'', 2 :: int), (lit ''b'', 7), (lit ''c'', 7)]) = 7" by simp
  then have bound: "\<bar>Max (snd ` set [(lit ''a'', 2 :: int), (lit ''b'', 7), (lit ''c'', 7)])\<bar> \<le> 2 ^ 53"
    by simp
  have same: "snd ` set [(lit ''a'', 2), (lit ''b'', 7), (lit ''c'', 7)]
                = snd ` set [(lit ''c'', 7 :: int), (lit ''x'', 2)]" by auto
  from zipf_constant_is_max_count
         [of "[(lit ''a'', 2), (lit ''b'', 7), (lit ''c'', 7)]" "[(lit ''c'', 7), (lit ''x'', 2)]"]
       ne bound
  have first: "compute_zipf_constant [(lit ''a'', 2), (lit ''b'', 7), (lit ''c'', 7)]
                 = Inr (real_of_int (Max (snd ` set [(lit ''a'', 2 :: int), (lit ''b'', 7), (lit ''c'', 7)])))"
    by blast
  from zipf_constant_is_max_count
         [of "[(lit ''a'', 2), (lit ''b'', 7), (lit ''c'', 7)]" "[(lit ''c'', 7), (lit ''x'', 2)]"]
       same
  have second: "compute_zipf_constant [(lit ''a'', 2), (lit ''b'', 7), (lit ''c'', 7)]
                  = compute_zipf_constant [(lit ''c'', 7), (lit ''x'', 2)]"
    by blast
  from first have seven: "compute_zipf_constant [(lit ''a'', 2), (lit ''b'', 7), (lit ''c'', 7)] = Inr 7"
    unfolding top by simp
  from second [unfolded seven] have "compute_zipf_constant [(lit ''c'', 7), (lit ''x'', 2)] = Inr 7"
    by simp
  with ne bound seven same show ?thesis by (intro conjI)
qed

section \<open>The request handlers\<close>

lemma map_snd_enumerate_from: "map snd (enumerate_from n xs) = xs"
  by (induction xs arbitrary: n) simp_all

lemma map_fst_enumerate_from:
  "map fst (enumerate_from n xs) = map (\<lambda>i. n + int i) [0..<length xs]"
proof (induction xs arbitrary: n)
  case Nil
  show ?case by simp
next
  case (Cons x xs)
  have "map (\<lambda>i. n + int i) [0..<Suc (length xs)]
          = n # map (\<lambda>i. n + 1 + int i) [0..<length xs]"
    by (simp add: upt_conv_Cons map_Suc_upt [symmetric] del: upt_Suc)
  with Cons.IH [of "n + 1"] show ?case by simp
qed

lemma enumerate_from_lower: "(r, x) \<in> set (enumerate_from n xs) \<Longrightarrow> n \<le> r"
  by (induction xs arbitrary: n) force+

lemma get_zipf_cached:
  assumes "cache tid = Some cached"
  shows "get_zipf cache tid =
           Inr \<lparr>ZipfResponse.text_id = tid,
                title = CachedText.title cached,
                total_words = sum_list (map snd (CachedText.frequencies cached)),
                zipf_constant =
                  (if CachedText.frequencies cached = [] then 0
                   else real_of_int (Max (snd ` set (CachedText.frequencies cached)))),
                data = map (zipf_point
                  (if CachedText.frequencies cached = [] then 0
                   else real_of_int (Max (snd ` set (CachedText.frequencies cached)))))
                  (enumerate_from 1 (most_common (CachedText.frequencies cached)))\<rparr>"
  using assms by (simp add: get_zipf_def compute_zipf_constant_eq)

lemma zipf_point_sel:
  "rank (zipf_point zc x) = fst x"
  "ZipfDataPoint.word (zipf_point zc x) = fst (snd x)"
  "frequency (zipf_point zc x) = snd (snd x)"
  "expected_frequency (zipf_point zc x) = (if fst x > 0 then zc / real_of_int (fst x) else 0)"
  by (simp_all add: zipf_point_def split_beta)

lemma zipf_point_entry:
  "map (\<lambda>p. (ZipfDataPoint.word p, frequency p)) (map (zipf_point zc) (enumerate_from n xs)) = xs"
  by (induction xs arbitrary: n) (simp_all add: zipf_point_sel)

lemma zipf_point_rank:
  "map rank (map (zipf_point zc) (enumerate_from n xs)) = map fst (enumerate_from n xs)"
  by (simp add: zipf_point_sel)

text \<open>
  Claim C6. A request for the frequency distribution or for the Zipf analysis of a text
  identifier that is not in the cache ends in the 404 \<open>HTTPException\<close> with the detail
  \<open>Text '<id>' not found\<close>, whatever else the cache holds: it is an error, never a
  response, so nothing is computed for it. An identifier that is in the cache always gets a
  response, so the two outcomes are told apart.
\<close>

theorem unknown_document_not_found:
  "(cache tid = None \<longrightarrow>
      get_frequency cache tid
        = Inl (HTTPException 404 (lit ''Text '' @ [0x27] @ tid @ [0x27] @ lit '' not found''))
      \<and> get_zipf cache tid
        = Inl (HTTPException 404 (lit ''Text '' @ [0x27] @ tid @ [0x27] @ lit '' not found''))
      \<and> (\<forall>r. get_frequency cache tid \<noteq> Inr r) \<and> (\<forall>r. get_zipf cache tid \<noteq> Inr r))
   \<and> (cache tid \<noteq> None \<longrightarrow>
      (\<exists>r. get_frequency cache tid = Inr r) \<and> (\<exists>r. get_zipf cache tid = Inr r))"
proof (intro conjI impI)
  assume "cache tid = None"
  then show "get_frequency cache tid
        = Inl (HTTPException 404 (lit ''Text '' @ [0x27] @ tid @ [0x27] @ lit '' not found''))"
    and "get_zipf cache tid
        = Inl (HTTPException 404 (lit ''Text '' @ [0x27] @ tid @ [0x27] @ lit '' not found''))"
    and "\<forall>r. get_frequency cache tid \<noteq> Inr r" and "\<forall>r. get_zipf cache tid \<noteq> Inr r"
    by (simp_all add: get_frequency_def get_zipf_def not_found_def)
next
  assume "cache tid \<noteq> None"
  then obtain cached where c: "cache tid = Some cached" by auto
  then show "\<exists>r. get_frequency cache tid = Inr r"
    by (simp add: get_frequency_def)
  from c show "\<exists>r. get_zipf cache tid = Inr r"
    by (simp add: get_zipf_cached)
qed

lemma sample_frequencies:
  "compute_frequencies sample_content =
     [(lit ''the'', 3), (lit ''quick'', 2), (lit ''brown'', 1), (lit ''fox'', 2),
      (lit ''jumps'', 1), (lit ''over'', 1), (lit ''lazy'', 1), (lit ''dog'', 1), (lit ''is'', 1)]"
  by (simp add: sample_content_def text_defs)

lemma sample_most_common:
  "most_common (compute_frequencies sample_content) =
     [(lit ''the'', 3), (lit ''quick'', 2), (lit ''fox'', 2), (lit ''brown'', 1),
      (lit ''jumps'', 1), (lit ''over'', 1), (lit ''lazy'', 1), (lit ''dog'', 1), (lit ''is'', 1)]"
  by (simp add: sample_frequencies most_common_def)

lemma sample_lookup:
  "sample_cache (lit ''sample'') = Some sample_text"
  "sample_cache (lit ''nonexistent'') = None"
  by (simp_all add: sample_cache_def lit_def)

theorem unknown_document_not_found_witness:
  "sample_cache (lit ''nonexistent'') = None
   \<and> get_frequency sample_cache (lit ''nonexistent'')
       = Inl (HTTPException 404 (lit ''Text '' @ [0x27] @ lit ''nonexistent'' @ [0x27] @ lit '' not found''))
   \<and> get_zipf sample_cache (lit ''nonexistent'')
       = Inl (HTTPException 404 (lit ''Text '' @ [0x27] @ lit ''nonexistent'' @ [0x27] @ lit '' not found''))
   \<and> sample_cache (lit ''sample'') \<noteq> None
   \<and> (\<exists>r. get_frequency sample_cache (lit ''sample'') = Inr r)
   \<and> (\<exists>r. get_zipf sample_cache (lit ''sample'') = Inr r)"
proof -
  have missing: "sample_cache (lit ''nonexistent'') = None"
    by (rule sample_lookup)
  have cached: "sample_cache (lit ''sample'') \<noteq> None"
    by (simp add: sample_lookup)
  from unknown_document_not_found [of sample_cache "lit ''nonexistent''"] missing
       unknown_document_not_found [of sample_cache "lit ''sample''"] cached
  show ?thesis by blast
qed

lemma most_common_sorted: "sorted_wrt (\<lambda>p q. snd q \<le> snd p) (most_common d)"
proof -
  have "sorted (map (\<lambda>(w, n). - n) (most_common d))"
    by (simp add: most_common_def)
  then have "sorted_wrt (\<lambda>p q. (case p of (w, n) \<Rightarrow> - n) \<le> (case q of (w, n) \<Rightarrow> - n)) (most_common d)"
    by (simp add: sorted_map)
  then show ?thesis
    by (rule sorted_wrt_mono_rel [rotated]) (auto simp: split_beta)
qed

lemma most_common_set: "set (most_common d) = set d"
  by (simp add: most_common_def)

lemma most_common_length: "length (most_common d) = length d"
  by (simp add: most_common_def)

lemma most_common_distinct_keys:
  assumes "distinct (map fst d)"
  shows "distinct (map fst (most_common d))"
proof -
  from assms have "distinct d" and "inj_on fst (set d)"
    by (simp_all add: distinct_map)
  then have "distinct (most_common d)" and "inj_on fst (set (most_common d))"
    by (simp_all add: most_common_def)
  then show ?thesis by (simp add: distinct_map)
qed

text \<open>
  Claim C10. For a cached document, the words of the frequency response, in order, are the
  words of the Zipf response, in order, and the counts agree as well: both lists follow
  \<open>most_common\<close> of the same table, and the Zipf data is in ascending rank order.
\<close>

theorem frequency_and_zipf_same_word_order:
  "cache tid = Some cached \<Longrightarrow>
   \<exists>fr zr. get_frequency cache tid = Inr fr \<and> get_zipf cache tid = Inr zr
     \<and> map WordFrequency.word (FrequencyResponse.frequencies fr)
         = map ZipfDataPoint.word (data zr)
     \<and> map count (FrequencyResponse.frequencies fr) = map frequency (data zr)
     \<and> map ZipfDataPoint.word (data zr) = map fst (most_common (CachedText.frequencies cached))
     \<and> sorted (map rank (data zr))"
proof -
  assume c: "cache tid = Some cached"
  let ?mc = "most_common (CachedText.frequencies cached)"
  have w: "map (\<lambda>p. ZipfDataPoint.word (zipf_point zc p)) (enumerate_from n ?mc) = map fst ?mc" for zc n
    using arg_cong [OF zipf_point_entry [of zc n ?mc], of "map fst"]
    by (simp add: comp_def)
  have f: "map (\<lambda>p. frequency (zipf_point zc p)) (enumerate_from n ?mc) = map snd ?mc" for zc n
    using arg_cong [OF zipf_point_entry [of zc n ?mc], of "map snd"]
    by (simp add: comp_def)
  have r: "sorted (map (\<lambda>p. rank (zipf_point zc p)) (enumerate_from 1 ?mc))" for zc
    using zipf_point_rank [of zc 1 ?mc]
    by (simp add: comp_def map_fst_enumerate_from sorted_map sorted_wrt_iff_nth_less del: upt_Suc)
  show ?thesis
    using c by (simp add: get_zipf_cached get_frequency_def comp_def split_beta w f r)
qed

text \<open>
  Claim C9. In \<open>get_zipf\<close> every rank that the enumeration hands to the loop is at least 1,
  hence not zero, so the division is never by zero and the \<open>else 0\<close> branch of the guard
  \<open>if rank > 0\<close> is never taken: the data of the response is what the loop without the
  guard computes.
\<close>

theorem zipf_rank_at_least_one:
  "cache tid = Some cached \<Longrightarrow>
   \<exists>resp. get_zipf cache tid = Inr resp
     \<and> (\<forall>(r, entry) \<in> set (enumerate_from 1 (most_common (CachedText.frequencies cached))).
           1 \<le> r \<and> r \<noteq> 0)
     \<and> (\<forall>p \<in> set (data resp). 1 \<le> rank p)
     \<and> data resp =
          map (\<lambda>(r, w, f).
                 \<lparr>rank = r, word = w, frequency = f,
                  expected_frequency = zipf_constant resp / real_of_int r\<rparr>)
            (enumerate_from 1 (most_common (CachedText.frequencies cached)))"
proof -
  assume c: "cache tid = Some cached"
  let ?en = "enumerate_from 1 (most_common (CachedText.frequencies cached))"
  have pos: "1 \<le> r" if "(r, e) \<in> set ?en" for r e
    using that by (rule enumerate_from_lower)
  have guard: "zipf_point zc x =
      (case x of (r, w, f) \<Rightarrow>
         \<lparr>rank = r, word = w, frequency = f,
          expected_frequency = zc / real_of_int r\<rparr>)" if "x \<in> set ?en" for zc x
  proof -
    obtain r w f where x: "x = (r, w, f)" by (cases x) auto
    with that have "1 \<le> r" using pos by blast
    with x show ?thesis by (simp add: zipf_point_def)
  qed
  have ranks: "\<forall>x \<in> set ?en. 1 \<le> rank (zipf_point zc x)" for zc
    using pos by (auto simp: zipf_point_sel)
  show ?thesis
    using c ranks by (auto simp add: get_zipf_cached guard cong: map_cong dest: pos)
qed

lemma length_enumerate_from: "length (enumerate_from n xs) = length xs"
  by (induction xs arbitrary: n) simp_all

lemma ranks_from_one: "map (\<lambda>i. 1 + int i) [0..<n] = map int [1..<Suc n]"
proof -
  have "map int [1..<Suc n] = map int (map Suc [0..<n])"
    by (simp only: map_Suc_upt One_nat_def)
  then show ?thesis by (simp add: comp_def)
qed

lemma zipf_data_ranks:
  "map rank (map (zipf_point zc) (enumerate_from 1 xs)) = map int [1..<Suc (length xs)]"
  by (simp only: zipf_point_rank map_fst_enumerate_from ranks_from_one)

lemma zipf_data_words:
  "map ZipfDataPoint.word (map (zipf_point zc) (enumerate_from n xs)) = map fst xs"
  using arg_cong [OF zipf_point_entry [of zc n xs], of "map fst"] by (simp add: comp_def)

lemma zipf_data_frequencies:
  "map frequency (map (zipf_point zc) (enumerate_from n xs)) = map snd xs"
  using arg_cong [OF zipf_point_entry [of zc n xs], of "map snd"] by (simp add: comp_def)

text \<open>
  Claim C5. For a cached frequency table with distinct keys, the Zipf series has one entry
  per key, its ranks are exactly 1, 2, ..., N in this order, where N is the number of
  distinct words, its frequencies are in descending order, no word occurs twice in it, and
  its (word, frequency) pairs are exactly the entries of the table.
\<close>

theorem zipf_series_ranking:
  "cache tid = Some cached \<Longrightarrow> distinct (map fst (CachedText.frequencies cached)) \<Longrightarrow>
   \<exists>resp. get_zipf cache tid = Inr resp
     \<and> length (data resp) = length (CachedText.frequencies cached)
     \<and> map rank (data resp) = map int [1..<Suc (length (CachedText.frequencies cached))]
     \<and> sorted_wrt (\<lambda>p q. frequency q \<le> frequency p) (data resp)
     \<and> distinct (map ZipfDataPoint.word (data resp))
     \<and> set (map (\<lambda>p. (ZipfDataPoint.word p, frequency p)) (data resp))
         = set (CachedText.frequencies cached)"
proof -
  assume c: "cache tid = Some cached"
    and dist: "distinct (map fst (CachedText.frequencies cached))"
  let ?d = "CachedText.frequencies cached"
  define zc where "zc = (if ?d = [] then 0 else real_of_int (Max (snd ` set ?d)))"
  define series where "series = map (zipf_point zc) (enumerate_from 1 (most_common ?d))"
  have resp: "get_zipf cache tid =
      Inr \<lparr>ZipfResponse.text_id = tid, title = CachedText.title cached,
           total_words = sum_list (map snd ?d), zipf_constant = zc, data = series\<rparr>"
    using c by (simp add: get_zipf_cached zc_def series_def)
  have len: "length series = length ?d"
    by (simp add: series_def length_enumerate_from most_common_length)
  have ranks: "map rank series = map int [1..<Suc (length ?d)]"
    unfolding series_def by (simp only: zipf_data_ranks most_common_length)
  have entries: "map (\<lambda>p. (ZipfDataPoint.word p, frequency p)) series = most_common ?d"
    unfolding series_def by (rule zipf_point_entry)
  have "sorted_wrt (\<lambda>p q. snd q \<le> snd p) (map (\<lambda>p. (ZipfDataPoint.word p, frequency p)) series)"
    unfolding entries by (rule most_common_sorted)
  then have desc: "sorted_wrt (\<lambda>p q. frequency q \<le> frequency p) series"
    by (simp add: sorted_wrt_map)
  have "map ZipfDataPoint.word series = map fst (most_common ?d)"
    unfolding series_def by (rule zipf_data_words)
  with dist have words: "distinct (map ZipfDataPoint.word series)"
    by (simp add: most_common_distinct_keys)
  have all: "set (map (\<lambda>p. (ZipfDataPoint.word p, frequency p)) series) = set ?d"
    unfolding entries by (rule most_common_set)
  from resp len ranks desc words all show ?thesis by simp
qed

lemma zipf_data_expected:
  "map expected_frequency (map (zipf_point zc) (enumerate_from 1 xs))
     = map (\<lambda>r. zc / real r) [1..<Suc (length xs)]"
proof -
  have "expected_frequency (zipf_point zc x) = zc / real_of_int (fst x)"
    if "x \<in> set (enumerate_from 1 xs)" for x
  proof -
    from that have "(fst x, snd x) \<in> set (enumerate_from 1 xs)" by simp
    then have "1 \<le> fst x" by (rule enumerate_from_lower)
    then show ?thesis by (simp add: zipf_point_sel)
  qed
  then have "map expected_frequency (map (zipf_point zc) (enumerate_from 1 xs))
      = map (\<lambda>r. zc / real_of_int r) (map fst (enumerate_from 1 xs))"
    by (simp add: comp_def)
  also have "map fst (enumerate_from 1 xs) = map int [1..<Suc (length xs)]"
    by (simp only: map_fst_enumerate_from ranks_from_one)
  finally show ?thesis by (simp add: comp_def)
qed

text \<open>
  Claim C4. For a cached frequency table, whose counts are all at least 1 and at most
  \<open>2^53\<close>, the Zipf series has one entry per word, with the ranks 1, 2, ..., N, and the entry
  of rank \<open>r\<close> has \<open>expected_frequency = zipf_constant / r\<close>, where the constant is the one
  \<open>compute_zipf_constant\<close> gives for the same table: the largest count, or 0 for the empty
  table. The expected frequency does not increase as the rank increases, over all entries
  of the series; it decreases strictly, the constant of a table with entries being positive.
\<close>

theorem expected_frequency_formula_and_monotone:
  "cache tid = Some cached \<Longrightarrow>
   \<forall>(w, n) \<in> set (CachedText.frequencies cached). 1 \<le> n \<and> n \<le> 2 ^ 53 \<Longrightarrow>
   \<exists>resp. get_zipf cache tid = Inr resp
     \<and> compute_zipf_constant (CachedText.frequencies cached) = Inr (zipf_constant resp)
     \<and> zipf_constant resp =
          (if CachedText.frequencies cached = [] then 0
           else real_of_int (Max (snd ` set (CachedText.frequencies cached))))
     \<and> length (data resp) = length (CachedText.frequencies cached)
     \<and> map rank (data resp) = map int [1..<Suc (length (CachedText.frequencies cached))]
     \<and> map expected_frequency (data resp)
         = map (\<lambda>r. zipf_constant resp / real r)
             [1..<Suc (length (CachedText.frequencies cached))]
     \<and> (\<forall>p \<in> set (data resp).
           1 \<le> rank p \<and> expected_frequency p = zipf_constant resp / real_of_int (rank p))
     \<and> (\<forall>p \<in> set (data resp). \<forall>q \<in> set (data resp).
           rank p \<le> rank q \<longrightarrow> expected_frequency q \<le> expected_frequency p)
     \<and> (\<forall>p \<in> set (data resp). \<forall>q \<in> set (data resp).
           rank p < rank q \<longrightarrow> expected_frequency q < expected_frequency p)
     \<and> sorted_wrt (\<lambda>p q. expected_frequency q \<le> expected_frequency p) (data resp)"
proof -
  assume c: "cache tid = Some cached"
    and counts: "\<forall>(w, n) \<in> set (CachedText.frequencies cached). 1 \<le> n \<and> n \<le> 2 ^ 53"
  let ?d = "CachedText.frequencies cached"
  define zc where "zc = (if ?d = [] then 0 else real_of_int (Max (snd ` set ?d)))"
  define series where "series = map (zipf_point zc) (enumerate_from 1 (most_common ?d))"
  have resp: "get_zipf cache tid =
      Inr \<lparr>ZipfResponse.text_id = tid, title = CachedText.title cached,
           total_words = sum_list (map snd ?d), zipf_constant = zc, data = series\<rparr>"
    using c by (simp add: get_zipf_cached zc_def series_def)
  have const: "compute_zipf_constant ?d = Inr zc"
    by (simp add: compute_zipf_constant_eq zc_def)
  have len: "length series = length ?d"
    by (simp add: series_def length_enumerate_from most_common_length)
  have ranks: "map rank series = map int [1..<Suc (length ?d)]"
    unfolding series_def by (simp only: zipf_data_ranks most_common_length)
  have expected: "map expected_frequency series
      = map (\<lambda>r. zc / real r) [1..<Suc (length ?d)]"
    unfolding series_def by (simp only: zipf_data_expected most_common_length)
  have top: "1 \<le> Max (snd ` set ?d)" if "?d \<noteq> []"
  proof -
    from that obtain w n where "(w, n) \<in> set ?d" by (cases ?d) auto
    with counts have "1 \<le> n" and "n \<in> snd ` set ?d" by force+
    then show ?thesis
      by (meson List.finite_set Max_ge finite_imageI order_trans)
  qed
  have nonneg: "0 \<le> zc"
    using top by (cases "?d = []") (simp_all add: zc_def)
  have pos: "0 < zc" if "series \<noteq> []"
  proof -
    from that len have "?d \<noteq> []" by auto
    with top show ?thesis by (simp add: zc_def)
  qed
  have point: "1 \<le> rank p \<and> expected_frequency p = zc / real_of_int (rank p)"
    if "p \<in> set series" for p
  proof -
    from that obtain x where x: "x \<in> set (enumerate_from 1 (most_common ?d))"
      and p: "p = zipf_point zc x" by (auto simp: series_def)
    from x have "(fst x, snd x) \<in> set (enumerate_from 1 (most_common ?d))" by simp
    then have "1 \<le> fst x" by (rule enumerate_from_lower)
    with p show ?thesis by (simp add: zipf_point_sel)
  qed
  have mono: "expected_frequency q \<le> expected_frequency p"
    if "p \<in> set series" "q \<in> set series" "rank p \<le> rank q" for p q
  proof -
    from that point have "0 < real_of_int (rank p)" "real_of_int (rank p) \<le> real_of_int (rank q)"
      by force+
    with nonneg have "zc / real_of_int (rank q) \<le> zc / real_of_int (rank p)"
      by (intro divide_left_mono) auto
    with that point show ?thesis by simp
  qed
  have strict: "expected_frequency q < expected_frequency p"
    if "p \<in> set series" "q \<in> set series" "rank p < rank q" for p q
  proof -
    from that have "series \<noteq> []" by auto
    then have "0 < zc" by (rule pos)
    moreover from that point
    have "0 < real_of_int (rank p)" "real_of_int (rank p) < real_of_int (rank q)"
      by force+
    ultimately have "zc / real_of_int (rank q) < zc / real_of_int (rank p)"
      by (intro divide_strict_left_mono) auto
    with that point show ?thesis by simp
  qed
  have "sorted (map rank series)"
    unfolding series_def zipf_point_rank map_fst_enumerate_from
    by (simp add: sorted_map sorted_wrt_iff_nth_less del: upt_Suc)
  then have "sorted_wrt (\<lambda>p q. rank p \<le> rank q) series"
    by (simp add: sorted_map)
  then have sorted: "sorted_wrt (\<lambda>p q. expected_frequency q \<le> expected_frequency p) series"
    by (rule sorted_wrt_mono_rel [rotated]) (rule mono)
  have "zipf_constant \<lparr>ZipfResponse.text_id = tid, title = CachedText.title cached,
           total_words = sum_list (map snd ?d), zipf_constant = zc, data = series\<rparr> = zc"
    and "data \<lparr>ZipfResponse.text_id = tid, title = CachedText.title cached,
           total_words = sum_list (map snd ?d), zipf_constant = zc, data = series\<rparr> = series"
    by simp_all
  with resp const len ranks expected point mono strict sorted show ?thesis
    by (intro exI [of _ "\<lparr>ZipfResponse.text_id = tid, title = CachedText.title cached,
           total_words = sum_list (map snd ?d), zipf_constant = zc, data = series\<rparr>"])
       (simp add: zc_def)
qed


section \<open>The handlers on the sample document\<close>

lemma sample_cached:
  "CachedText.frequencies sample_text = compute_frequencies sample_content"
  by (simp add: sample_text_def)

lemma sample_zipf_constant: "compute_zipf_constant (compute_frequencies sample_content) = Inr 3"
  by (simp add: sample_frequencies compute_zipf_constant_def most_common1_def)

theorem zipf_rank_at_least_one_witness:
  "\<exists>resp. get_zipf sample_cache (lit ''sample'') = Inr resp
     \<and> map rank (data resp) = [1, 2, 3, 4, 5, 6, 7, 8, 9]
     \<and> map expected_frequency (data resp)
         = map (\<lambda>r. zipf_constant resp / r) [1, 2, 3, 4, 5, 6, 7, 8, 9]"
proof -
  from zipf_rank_at_least_one [of sample_cache "lit ''sample''" sample_text] sample_lookup(1)
  obtain resp where r: "get_zipf sample_cache (lit ''sample'') = Inr resp"
    and d: "data resp =
          map (\<lambda>(r, w, f).
                 \<lparr>rank = r, word = w, frequency = f,
                  expected_frequency = zipf_constant resp / real_of_int r\<rparr>)
            (enumerate_from 1 (most_common (compute_frequencies sample_content)))"
    unfolding sample_cached by blast
  have ranks: "map rank (data resp) = [1, 2, 3, 4, 5, 6, 7, 8, 9]"
    unfolding d sample_most_common by simp
  have expected: "map expected_frequency (data resp)
         = map (\<lambda>r. zipf_constant resp / r) [1, 2, 3, 4, 5, 6, 7, 8, 9]"
    unfolding d sample_most_common by simp
  from r ranks expected show ?thesis by (intro exI [of _ resp] conjI)
qed

theorem frequency_and_zipf_same_word_order_witness:
  "\<exists>fr zr. get_frequency sample_cache (lit ''sample'') = Inr fr
     \<and> get_zipf sample_cache (lit ''sample'') = Inr zr
     \<and> map WordFrequency.word (FrequencyResponse.frequencies fr)
         = [lit ''the'', lit ''quick'', lit ''fox'', lit ''brown'', lit ''jumps'', lit ''over'',
            lit ''lazy'', lit ''dog'', lit ''is'']
     \<and> map ZipfDataPoint.word (data zr)
         = [lit ''the'', lit ''quick'', lit ''fox'', lit ''brown'', lit ''jumps'', lit ''over'',
            lit ''lazy'', lit ''dog'', lit ''is'']"
proof -
  from frequency_and_zipf_same_word_order [of sample_cache "lit ''sample''" sample_text]
       sample_lookup(1)
  obtain fr zr where f: "get_frequency sample_cache (lit ''sample'') = Inr fr"
    and z: "get_zipf sample_cache (lit ''sample'') = Inr zr"
    and same: "map WordFrequency.word (FrequencyResponse.frequencies fr)
           = map ZipfDataPoint.word (data zr)"
    and words: "map ZipfDataPoint.word (data zr)
           = map fst (most_common (compute_frequencies sample_content))"
    unfolding sample_cached by blast
  have w: "map ZipfDataPoint.word (data zr)
         = [lit ''the'', lit ''quick'', lit ''fox'', lit ''brown'', lit ''jumps'', lit ''over'',
            lit ''lazy'', lit ''dog'', lit ''is'']"
    unfolding words sample_most_common by simp
  from f z same [unfolded w] w show ?thesis by (intro exI [of _ fr] exI [of _ zr] conjI)
qed

theorem zipf_series_ranking_witness:
  "distinct (map fst (compute_frequencies sample_content))
   \<and> (\<exists>resp. get_zipf sample_cache (lit ''sample'') = Inr resp
        \<and> length (data resp) = 9
        \<and> map rank (data resp) = [1, 2, 3, 4, 5, 6, 7, 8, 9]
        \<and> distinct (map ZipfDataPoint.word (data resp)))"
proof -
  have dist: "distinct (map fst (compute_frequencies sample_content))"
    unfolding sample_frequencies by (simp add: lit_def)
  have nine: "length (compute_frequencies sample_content) = 9"
    unfolding sample_frequencies by simp
  have upto: "map int [1..<Suc 9] = [1, 2, 3, 4, 5, 6, 7, 8, 9]"
    by (simp add: upt_conv_Cons)
  from zipf_series_ranking [of sample_cache "lit ''sample''" sample_text] sample_lookup(1) dist
  obtain resp where r: "get_zipf sample_cache (lit ''sample'') = Inr resp"
    and l: "length (data resp) = length (compute_frequencies sample_content)"
    and k: "map rank (data resp)
              = map int [1..<Suc (length (compute_frequencies sample_content))]"
    and w: "distinct (map ZipfDataPoint.word (data resp))"
    unfolding sample_cached by blast
  from r l [unfolded nine] k [unfolded nine upto] w
  have "\<exists>resp. get_zipf sample_cache (lit ''sample'') = Inr resp
        \<and> length (data resp) = 9
        \<and> map rank (data resp) = [1, 2, 3, 4, 5, 6, 7, 8, 9]
        \<and> distinct (map ZipfDataPoint.word (data resp))"
    by (intro exI [of _ resp] conjI)
  with dist show ?thesis by (rule conjI)
qed

theorem expected_frequency_formula_and_monotone_witness:
  "(lit ''the'', 3) \<in> set (compute_frequencies sample_content)
   \<and> (\<exists>resp. get_zipf sample_cache (lit ''sample'') = Inr resp
        \<and> zipf_constant resp = 3
        \<and> map rank (data resp) = [1, 2, 3, 4, 5, 6, 7, 8, 9]
        \<and> map expected_frequency (data resp)
            = [3, 3 / 2, 1, 3 / 4, 3 / 5, 1 / 2, 3 / 7, 3 / 8, 1 / 3])"
proof -
  have counts: "\<forall>(w, n) \<in> set (compute_frequencies sample_content). 1 \<le> n \<and> n \<le> 2 ^ 53"
    unfolding sample_frequencies by simp
  have mem: "(lit ''the'', 3) \<in> set (compute_frequencies sample_content)"
    unfolding sample_frequencies by simp
  have nine: "length (compute_frequencies sample_content) = 9"
    unfolding sample_frequencies by simp
  have upto: "map int [1..<Suc 9] = [1, 2, 3, 4, 5, 6, 7, 8, 9]"
    by (simp add: upt_conv_Cons)
  have thirds: "map (\<lambda>r. 3 / real r) [1..<Suc 9]
      = [3, 3 / 2, 1, 3 / 4, 3 / 5, 1 / 2, 3 / 7, 3 / 8, 1 / 3]"
    by (simp add: upt_conv_Cons)
  from expected_frequency_formula_and_monotone [of sample_cache "lit ''sample''" sample_text]
       sample_lookup(1) counts
  obtain resp where r: "get_zipf sample_cache (lit ''sample'') = Inr resp"
    and c: "compute_zipf_constant (compute_frequencies sample_content)
              = Inr (zipf_constant resp)"
    and k: "map rank (data resp)
              = map int [1..<Suc (length (compute_frequencies sample_content))]"
    and e: "map expected_frequency (data resp)
              = map (\<lambda>r. zipf_constant resp / real r)
                  [1..<Suc (length (compute_frequencies sample_content))]"
    unfolding sample_cached by blast
  from c have three: "zipf_constant resp = 3"
    unfolding sample_zipf_constant by simp
  from r three k [unfolded nine upto] e [unfolded nine three thirds]
  have "\<exists>resp. get_zipf sample_cache (lit ''sample'') = Inr resp
        \<and> zipf_constant resp = 3
        \<and> map rank (data resp) = [1, 2, 3, 4, 5, 6, 7, 8, 9]
        \<and> map expected_frequency (data resp)
            = [3, 3 / 2, 1, 3 / 4, 3 / 5, 1 / 2, 3 / 7, 3 / 8, 1 / 3]"
    by (intro exI [of _ resp] conjI)
  with mem show ?thesis by (rule conjI)
qed

end
